theory Spec2Isabelle
  imports Complex_Main "HOL-Library.Word" "HOL-Library.Multiset"
begin

unbundle bit_operations_syntax

section \<open>JavaScript values used by the filter\<close>

text \<open>
  A JavaScript string is a sequence of UTF-16 code units; \<open>charCodeAt\<close> reads one of them.
\<close>

type_synonym js_string = "16 word list"

text \<open>
  A JavaScript number that is either a whole number or not a number. The indices returned by
  \<open>getHashIndices\<close> are \<open>nat js_number\<close>, the counters of the array are
  \<open>int js_number\<close>. In the counter array \<open>NaN\<close> also stands for an absent element
  (\<open>undefined\<close>): the code only compares an element with \<open>=== 0\<close> and \<open>> 0\<close>
  (both false for \<open>undefined\<close> and for \<open>NaN\<close>) and applies \<open>++\<close> and \<open>--\<close>
  (both give \<open>NaN\<close>), so the two are never told apart.

  Lists are unbounded and counters are unbounded integers; a JavaScript array holds fewer than
  \<open>2 ^ 32\<close> elements and a counter is exact up to \<open>2 ^ 53\<close>, limits that are not modelled.
\<close>

datatype 'a js_number = Number 'a | NaN

section \<open>Hash index derivation (bloomLogic)\<close>

text \<open>
  \<open>fnv1a\<close>: \<open>hash = 2166136261 ^ seed\<close>, then for every code unit
  \<open>hash ^= str.charCodeAt(i); hash = Math.imul(hash, 16777619)\<close>, and \<open>hash >>> 0\<close> at the
  end. The operators \<open>^\<close> and \<open>Math.imul\<close> work on 32-bit integers, so the running hash is
  a 32-bit word; \<open>>>> 0\<close> reads it as unsigned.
\<close>

definition fnv1a_step :: "32 word \<Rightarrow> 16 word \<Rightarrow> 32 word" where
  "fnv1a_step hash c = (hash XOR ucast c) * 16777619"

fun fnv1a_loop :: "js_string \<Rightarrow> 32 word \<Rightarrow> 32 word" where
  "fnv1a_loop [] hash = hash"
| "fnv1a_loop (c # str) hash = fnv1a_loop str (fnv1a_step hash c)"

definition fnv1a :: "js_string \<Rightarrow> 32 word \<Rightarrow> nat" where
  "fnv1a str seed = unat (fnv1a_loop str (2166136261 XOR seed))"

text \<open>
  The values \<open>h1\<close>, \<open>h2\<close> and \<open>i\<close> are JavaScript numbers, that is IEEE 754 doubles, and
  \<open>i * h2\<close> and \<open>h1 + i * h2\<close> are double operations: the exact result rounded to the
  nearest double, ties to even. \<open>fl\<close> is that rounding on the natural numbers: every number
  below \<open>2 ^ 53\<close> is a double; a larger one keeps its 53 leading bits. (The operands here
  are below \<open>2 ^ 64\<close>, far from the overflow threshold of the format.)
\<close>

fun bitlen :: "nat \<Rightarrow> nat" where
  "bitlen n = (if n = 0 then 0 else Suc (bitlen (n div 2)))"

declare bitlen.simps [simp del]

definition fl :: "nat \<Rightarrow> nat" where
  "fl n =
     (if n < 2 ^ 53 then n
      else
        let e = bitlen n - 53;
            q = n div 2 ^ e;
            r = n mod 2 ^ e;
            half = 2 ^ (e - 1)
        in if r < half then q * 2 ^ e
           else if half < r then (q + 1) * 2 ^ e
           else (if even q then q else q + 1) * 2 ^ e)"

text \<open>\<open>x >>> 0\<close> on a whole non-negative number: the number modulo \<open>2 ^ 32\<close>.\<close>

definition to_uint32 :: "nat \<Rightarrow> nat" where
  "to_uint32 x = x mod 2 ^ 32"

text \<open>\<open>a % b\<close> on whole non-negative numbers: \<open>NaN\<close> when \<open>b\<close> is 0.\<close>

definition js_rem :: "nat \<Rightarrow> nat \<Rightarrow> nat js_number" where
  "js_rem a b = (if b = 0 then NaN else Number (a mod b))"

definition combinedHash :: "nat \<Rightarrow> nat \<Rightarrow> nat \<Rightarrow> nat" where
  "combinedHash h1 h2 i = to_uint32 (fl (h1 + fl (i * h2)))"

text \<open>
  The loop \<open>for (let i = 0; i < k; i++) indices.push(combinedHash % size)\<close>, with the array
  built so far as accumulator (\<open>sz\<close> is the parameter \<open>size\<close>).
\<close>

function hash_loop ::
  "nat \<Rightarrow> nat \<Rightarrow> nat \<Rightarrow> nat \<Rightarrow> nat \<Rightarrow> nat js_number list \<Rightarrow> nat js_number list" where
  "hash_loop h1 h2 sz k i indices =
     (if i < k
      then hash_loop h1 h2 sz k (i + 1) (indices @ [js_rem (combinedHash h1 h2 i) sz])
      else indices)"
  by pat_completeness auto
termination
  by (relation "measure (\<lambda>(h1, h2, sz, k, i, indices). k - i)") auto

declare hash_loop.simps [simp del]

definition getHashIndices :: "js_string \<Rightarrow> nat \<Rightarrow> nat \<Rightarrow> nat js_number list" where
  "getHashIndices input sz k =
     (let h1 = fnv1a input 0x811c9dc5;
          h2 = fnv1a input 0x9e3779b9
      in hash_loop h1 h2 sz k 0 [])"


section \<open>The filter state and its handlers (App)\<close>

text \<open>
  \<open>OperationResult\<close>, without its \<open>timestamp\<close> (the clock is not part of the model).
  \<open>op_kind\<close> is the field \<open>type\<close>; \<open>missingIndices\<close> is optional.
\<close>

datatype op_type = OpInsert | OpCheck | OpDelete

record OperationResult =
  op_kind :: op_type
  word :: js_string
  indices :: "nat js_number list"
  isMatch :: bool
  isFalsePositive :: bool
  missingIndices :: "nat js_number list option"

text \<open>
  The state of the component: the configuration \<open>size\<close> (here \<open>bsize\<close>) and
  \<open>hashCount\<close>, the counter array \<open>bitArray\<close>, the inserted \<open>items\<close>, the text of
  the input field and the last operation.
\<close>

record bloom_state =
  bsize :: nat
  hashCount :: nat
  bitArray :: "int js_number list"
  items :: "js_string list"
  inputValue :: js_string
  lastOperation :: "OperationResult option"

definition DEFAULT_SIZE :: nat where
  "DEFAULT_SIZE = 20"

definition DEFAULT_HASHES :: nat where
  "DEFAULT_HASHES = 3"

definition initial :: bloom_state where
  "initial =
     \<lparr>bsize = DEFAULT_SIZE, hashCount = DEFAULT_HASHES,
      bitArray = replicate DEFAULT_SIZE (Number 0), items = [],
      inputValue = [], lastOperation = None\<rparr>"

text \<open>
  The reset done by the effect on a change of \<open>size\<close> or \<open>hashCount\<close> and by the reset
  button: \<open>setBitArray(Array(size).fill(0)); setItems([]); setLastOperation(null)\<close>.
  \<open>configure\<close> sets both sliders (\<open>setSize\<close>, \<open>setHashCount\<close>); the effect runs
  when one of the two values has changed. Nothing checks the two numbers.
\<close>

definition reset :: "bloom_state \<Rightarrow> bloom_state" where
  "reset s = s\<lparr>bitArray := replicate (bsize s) (Number 0), items := [], lastOperation := None\<rparr>"

definition configure :: "nat \<Rightarrow> nat \<Rightarrow> bloom_state \<Rightarrow> bloom_state" where
  "configure n k s =
     (if n = bsize s \<and> k = hashCount s then s else reset (s\<lparr>bsize := n, hashCount := k\<rparr>))"

definition fresh :: "nat \<Rightarrow> nat \<Rightarrow> bloom_state" where
  "fresh n k = configure n k initial"

subsection \<open>String and array primitives\<close>

text \<open>
  \<open>String.prototype.trim\<close> removes white space and line terminators from both ends:
  TAB, LF, VT, FF, CR, SP, NBSP, U+1680, U+2000 to U+200A, U+2028, U+2029, U+202F, U+205F,
  U+3000 and U+FEFF.
\<close>

definition is_ws :: "16 word \<Rightarrow> bool" where
  "is_ws c \<longleftrightarrow>
     c \<in> {0x9, 0xA, 0xB, 0xC, 0xD, 0x20, 0xA0, 0x1680, 0x2028, 0x2029, 0x202F, 0x205F,
          0x3000, 0xFEFF}
     \<or> (0x2000 \<le> c \<and> c \<le> 0x200A)"

definition trim :: "js_string \<Rightarrow> js_string" where
  "trim str = rev (dropWhile is_ws (rev (dropWhile is_ws str)))"

text \<open>
  \<open>bits[idx]\<close> reads an element; outside the array, and at the index \<open>NaN\<close>, the value is
  \<open>undefined\<close>. \<open>bits[idx] = v\<close> stores one; beyond the end the array grows, the new
  elements in between absent; at the index \<open>NaN\<close> no element changes.
\<close>

definition element :: "int js_number list \<Rightarrow> nat js_number \<Rightarrow> int js_number" where
  "element bits idx =
     (case idx of Number i \<Rightarrow> if i < length bits then bits ! i else NaN | NaN \<Rightarrow> NaN)"

definition assign :: "int js_number list \<Rightarrow> nat js_number \<Rightarrow> int js_number \<Rightarrow> int js_number list" where
  "assign bits idx v =
     (case idx of
        Number i \<Rightarrow>
          if i < length bits then bits[i := v]
          else bits @ replicate (i - length bits) NaN @ [v]
      | NaN \<Rightarrow> bits)"

definition incr :: "int js_number \<Rightarrow> int js_number" where
  "incr c = (case c of Number n \<Rightarrow> Number (n + 1) | NaN \<Rightarrow> NaN)"

definition decr :: "int js_number \<Rightarrow> int js_number" where
  "decr c = (case c of Number n \<Rightarrow> Number (n - 1) | NaN \<Rightarrow> NaN)"

definition positive :: "int js_number \<Rightarrow> bool" where
  "positive c = (case c of Number n \<Rightarrow> 0 < n | NaN \<Rightarrow> False)"

text \<open>\<open>newBits[idx]++\<close> and \<open>if (newBits[idx] > 0) newBits[idx]--\<close>.\<close>

definition increment_at :: "nat js_number \<Rightarrow> int js_number list \<Rightarrow> int js_number list" where
  "increment_at idx newBits = assign newBits idx (incr (element newBits idx))"

definition decrement_at :: "nat js_number \<Rightarrow> int js_number list \<Rightarrow> int js_number list" where
  "decrement_at idx newBits =
     (if positive (element newBits idx) then assign newBits idx (decr (element newBits idx))
      else newBits)"

text \<open>\<open>xs.indexOf(x)\<close>, which is -1 when \<open>x\<close> is absent, and \<open>xs.splice(i, 1)\<close>.\<close>

fun indexOf :: "'a list \<Rightarrow> 'a \<Rightarrow> int" where
  "indexOf [] x = - 1"
| "indexOf (y # ys) x =
     (if y = x then 0 else if indexOf ys x = - 1 then - 1 else indexOf ys x + 1)"

definition splice1 :: "'a list \<Rightarrow> nat \<Rightarrow> 'a list" where
  "splice1 xs i = take i xs @ drop (i + 1) xs"

text \<open>The code units of an ASCII literal, and the text of the alert of \<open>handleDelete\<close>.\<close>

definition utf16 :: "string \<Rightarrow> js_string" where
  "utf16 str = map (\<lambda>c. of_nat (of_char c)) str"

definition alert_text :: "js_string \<Rightarrow> js_string" where
  "alert_text w = [0x22] @ w @ [0x22] @ utf16 '' is not in the set, cannot delete.''"

subsection \<open>Handlers\<close>

definition handleInsert :: "bloom_state \<Rightarrow> bloom_state" where
  "handleInsert s =
     (let w = trim (inputValue s) in
      if w = [] then s
      else
        let idxs = getHashIndices w (bsize s) (hashCount s);
            newBits = fold increment_at idxs (bitArray s)
        in s\<lparr>bitArray := newBits,
             items := items s @ [w],
             lastOperation := Some \<lparr>op_kind = OpInsert, word = w, indices = idxs,
               isMatch = True, isFalsePositive = False, missingIndices = None\<rparr>,
             inputValue := []\<rparr>)"

definition handleCheck :: "bloom_state \<Rightarrow> bloom_state" where
  "handleCheck s =
     (let w = trim (inputValue s) in
      if w = [] then s
      else
        let idxs = getHashIndices w (bsize s) (hashCount s);
            missing = filter (\<lambda>idx. element (bitArray s) idx = Number 0) idxs;
            match = (length missing = 0);
            actuallyExists = (w \<in> set (items s));
            falsePositive = (match \<and> \<not> actuallyExists)
        in s\<lparr>lastOperation := Some \<lparr>op_kind = OpCheck, word = w, indices = idxs,
               isMatch = match, isFalsePositive = falsePositive,
               missingIndices = Some missing\<rparr>\<rparr>)"

text \<open>
  \<open>handleDelete\<close> returns the text of the alert it shows, if any, and the state it leaves.
\<close>

definition handleDelete :: "bloom_state \<Rightarrow> js_string option \<times> bloom_state" where
  "handleDelete s =
     (let w = trim (inputValue s) in
      if w = [] then (None, s)
      else if w \<notin> set (items s) then (Some (alert_text w), s)
      else
        let idxs = getHashIndices w (bsize s) (hashCount s);
            newBits = fold decrement_at idxs (bitArray s);
            itemIndex = indexOf (items s) w;
            newItems = (if - 1 < itemIndex then splice1 (items s) (nat itemIndex) else items s)
        in (None,
            s\<lparr>bitArray := newBits,
              items := newItems,
              lastOperation := Some \<lparr>op_kind = OpDelete, word = w, indices = idxs,
                isMatch = True, isFalsePositive = False, missingIndices = None\<rparr>,
              inputValue := []\<rparr>))"

subsection \<open>Sequences of operations\<close>

text \<open>
  An operation of the user: the text is typed into the input field (\<open>setInputValue\<close>) and
  the button is pressed.
\<close>

datatype operation = Insert js_string | Check js_string | Delete js_string

fun exec :: "operation \<Rightarrow> bloom_state \<Rightarrow> bloom_state" where
  "exec (Insert v) s = handleInsert (s\<lparr>inputValue := v\<rparr>)"
| "exec (Check v) s = handleCheck (s\<lparr>inputValue := v\<rparr>)"
| "exec (Delete v) s = snd (handleDelete (s\<lparr>inputValue := v\<rparr>))"

fun run :: "operation list \<Rightarrow> bloom_state \<Rightarrow> bloom_state" where
  "run [] s = s"
| "run (x # xs) s = run xs (exec x s)"

section \<open>Notions of the specification\<close>

text \<open>
  The double hashing scheme in the specification's words: FNV-1a starts from
  \<open>2166136261 XOR seed\<close> and folds every code unit with an XOR followed by a multiplication
  by 16777619 modulo \<open>2 ^ 32\<close>; index \<open>i\<close> is \<open>((h1 + i * h2) mod 2 ^ 32) mod capacity\<close>,
  all in exact arithmetic on natural numbers.
\<close>

definition spec_fnv1a_step :: "nat \<Rightarrow> nat \<Rightarrow> nat" where
  "spec_fnv1a_step hash byte = ((hash XOR byte) * 16777619) mod 2 ^ 32"

definition spec_FNV1a :: "js_string \<Rightarrow> nat \<Rightarrow> nat" where
  "spec_FNV1a input seed = foldl spec_fnv1a_step (2166136261 XOR seed) (map unat input)"

definition spec_index :: "js_string \<Rightarrow> nat \<Rightarrow> nat \<Rightarrow> nat" where
  "spec_index input capacity i =
     ((spec_FNV1a input 0x811c9dc5 + i * spec_FNV1a input 0x9e3779b9) mod 2 ^ 32) mod capacity"

text \<open>
  The net count of an item \<open>x\<close> over a sequence of operations that starts in state \<open>s\<close>:
  the insert operations for \<open>x\<close> minus the successful delete operations for \<open>x\<close>. An
  operation is for \<open>x\<close> when its text and \<open>x\<close> are the same after trimming; an insert
  operation counts whatever its text is; a delete is successful when it passes both
  tests of \<open>handleDelete\<close>.
\<close>

fun net :: "js_string \<Rightarrow> operation list \<Rightarrow> bloom_state \<Rightarrow> int" where
  "net x [] s = 0"
| "net x (Insert v # ops) s =
     (if trim v = trim x then 1 else 0) + net x ops (exec (Insert v) s)"
| "net x (Check v # ops) s = net x ops (exec (Check v) s)"
| "net x (Delete v # ops) s =
     (if trim v = trim x \<and> trim v \<noteq> [] \<and> trim v \<in> set (items s) then - 1 else 0)
       + net x ops (exec (Delete v) s)"

text \<open>The sum of all counters; it is a number only if every counter is.\<close>

fun plus_js :: "int js_number \<Rightarrow> int js_number \<Rightarrow> int js_number" where
  "plus_js (Number a) (Number b) = Number (a + b)"
| "plus_js _ _ = NaN"

definition counter_sum :: "int js_number list \<Rightarrow> int js_number" where
  "counter_sum bits = foldr plus_js bits (Number 0)"

text \<open>
  \<open>load sz k ws j\<close> counts how often slot \<open>j\<close> occurs among the indices of the items
  \<open>ws\<close>. A state is \<open>consistent\<close> when every counter holds the load of its slot.
\<close>

definition load :: "nat \<Rightarrow> nat \<Rightarrow> js_string list \<Rightarrow> nat \<Rightarrow> int" where
  "load sz k ws j = (\<Sum>w\<leftarrow>ws. int (count_list (getHashIndices w sz k) (Number j)))"

definition consistent :: "bloom_state \<Rightarrow> bool" where
  "consistent s \<longleftrightarrow>
     bitArray s = map (\<lambda>j. Number (load (bsize s) (hashCount s) (items s) j)) [0..<bsize s]"

text \<open>
  The data model of a filter: at least one slot, one counter for each slot, and every counter
  a non-negative number.
\<close>

definition nonneg :: "int js_number \<Rightarrow> bool" where
  "nonneg c = (case c of Number n \<Rightarrow> 0 \<le> n | NaN \<Rightarrow> False)"

definition wellformed :: "bloom_state \<Rightarrow> bool" where
  "wellformed s \<longleftrightarrow> 1 \<le> bsize s \<and> length (bitArray s) = bsize s \<and> list_all nonneg (bitArray s)"

text \<open>
  An index that \<open>getHashIndices\<close> can return for an array of \<open>n\<close> slots: a slot of the
  array, or \<open>NaN\<close>.
\<close>

definition slot_of :: "nat \<Rightarrow> nat js_number \<Rightarrow> bool" where
  "slot_of n idx \<longleftrightarrow> idx = NaN \<or> (\<exists>j. j < n \<and> idx = Number j)"

section \<open>The hash indices\<close>

lemma hash_loop_eq:
  "hash_loop h1 h2 sz k i acc = acc @ map (\<lambda>j. js_rem (combinedHash h1 h2 j) sz) [i..<k]"
proof (induction h1 h2 sz k i acc rule: hash_loop.induct)
  case (1 h1 h2 sz k i acc)
  show ?case
  proof (cases "i < k")
    case True
    then show ?thesis
      using "1.IH" by (subst hash_loop.simps) (simp add: upt_conv_Cons)
  next
    case False
    then show ?thesis by (subst hash_loop.simps) simp
  qed
qed

lemma getHashIndices_map:
  "getHashIndices input sz k =
     map (\<lambda>i. js_rem (combinedHash (fnv1a input 0x811c9dc5) (fnv1a input 0x9e3779b9) i) sz) [0..<k]"
  by (simp add: getHashIndices_def hash_loop_eq)

lemma length_getHashIndices: "length (getHashIndices input sz k) = k"
  by (simp add: getHashIndices_map)

lemma fl_exact: "n < 2 ^ 53 \<Longrightarrow> fl n = n"
  by (simp add: fl_def)

lemma fnv1a_lt: "fnv1a str seed < 2 ^ 32"
  unfolding fnv1a_def using unsigned_less [of "fnv1a_loop str (2166136261 XOR seed)", where 'a = nat] by simp

lemma unat_fnv1a_step: "unat (fnv1a_step h c) = spec_fnv1a_step (unat h) (unat c)"
proof -
  have "unat c < 2 ^ 16"
    using unsigned_less [of c, where 'a = nat] by simp
  then have "unat c mod 4294967296 = unat c" by simp
  then show ?thesis
    by (simp add: fnv1a_step_def spec_fnv1a_step_def unat_word_ariths unsigned_xor_eq
        unsigned_ucast_eq take_bit_eq_mod)
qed

lemma unat_fnv1a_loop:
  "unat (fnv1a_loop str h) = foldl spec_fnv1a_step (unat h) (map unat str)"
  by (induction str arbitrary: h) (simp_all add: unat_fnv1a_step)

lemma fnv1a_spec: "fnv1a str seed = spec_FNV1a str (unat seed)"
  by (simp add: fnv1a_def spec_FNV1a_def unat_fnv1a_loop unsigned_xor_eq)

lemma combinedHash_exact:
  assumes "h1 + i * h2 < 2 ^ 53"
  shows "combinedHash h1 h2 i = (h1 + i * h2) mod 2 ^ 32"
proof -
  have "i * h2 < 2 ^ 53" using assms by simp
  then show ?thesis using assms by (simp add: combinedHash_def to_uint32_def fl_exact)
qed

lemma small_index_exact:
  assumes "h1 < 2 ^ 32" "h2 < 2 ^ 32" "i < 2 ^ 21"
  shows "h1 + i * h2 < (2::nat) ^ 53"
proof -
  have "i * h2 \<le> (2 ^ 21 - 1) * (2 ^ 32 - 1)"
    using assms by (intro mult_mono) simp_all
  then show ?thesis using assms by simp
qed


lemma getHashIndices_slot:
  assumes "idx \<in> set (getHashIndices input sz k)"
  shows "slot_of sz idx"
proof -
  from assms obtain c where idx: "idx = js_rem c sz"
    by (auto simp: getHashIndices_map)
  show ?thesis
  proof (cases "sz = 0")
    case True
    with idx show ?thesis by (simp add: js_rem_def slot_of_def)
  next
    case False
    then have "c mod sz < sz" by simp
    with idx False show ?thesis by (auto simp: js_rem_def slot_of_def)
  qed
qed

lemma getHashIndices_Number:
  assumes "1 \<le> sz" and "idx \<in> set (getHashIndices input sz k)"
  shows "\<exists>j. j < sz \<and> idx = Number j"
proof -
  from assms(2) obtain c where "idx = js_rem c sz"
    by (auto simp: getHashIndices_map)
  with assms(1) have "idx = Number (c mod sz)" "c mod sz < sz"
    by (simp_all add: js_rem_def)
  then show ?thesis by blast
qed

lemma getHashIndices_zero: "getHashIndices input 0 k = replicate k NaN"
  by (simp add: getHashIndices_map js_rem_def map_replicate_const)

lemma map_upt_update:
  "i < n \<Longrightarrow> (map g [0..<n])[i := g' i] = map (g(i := g' i)) [0..<n]"
  by (rule nth_equalityI) (auto simp: nth_list_update)

lemma increment_at_map:
  assumes "slot_of n idx"
  shows "increment_at idx (map (\<lambda>j. Number (f j)) [0..<n])
    = map (\<lambda>j. Number (f j + (if idx = Number j then 1 else 0))) [0..<n]"
proof (cases idx)
  case NaN
  then show ?thesis by (simp add: increment_at_def assign_def)
next
  case (Number i)
  with assms have "i < n" by (simp add: slot_of_def)
  then show ?thesis
    using Number
    by (intro nth_equalityI) (auto simp: increment_at_def assign_def element_def incr_def nth_list_update)
qed

lemma fold_increment_at:
  assumes "\<forall>idx\<in>set idxs. slot_of n idx"
  shows "fold increment_at idxs (map (\<lambda>j. Number (f j)) [0..<n])
    = map (\<lambda>j. Number (f j + int (count_list idxs (Number j)))) [0..<n]"
  using assms
proof (induction idxs arbitrary: f)
  case Nil
  then show ?case by simp
next
  case (Cons idx idxs)
  have "fold increment_at (idx # idxs) (map (\<lambda>j. Number (f j)) [0..<n])
    = fold increment_at idxs (map (\<lambda>j. Number (f j + (if idx = Number j then 1 else 0))) [0..<n])"
    using Cons.prems by (simp add: increment_at_map)
  also have "\<dots> = map (\<lambda>j. Number (f j + (if idx = Number j then 1 else 0)
      + int (count_list idxs (Number j)))) [0..<n]"
    using Cons.prems by (intro Cons.IH) simp
  also have "\<dots> = map (\<lambda>j. Number (f j + int (count_list (idx # idxs) (Number j)))) [0..<n]"
    by simp
  finally show ?case .
qed

lemma decrement_at_map:
  assumes "slot_of n idx" and "\<forall>j<n. idx = Number j \<longrightarrow> 0 < f j"
  shows "decrement_at idx (map (\<lambda>j. Number (f j)) [0..<n])
    = map (\<lambda>j. Number (f j - (if idx = Number j then 1 else 0))) [0..<n]"
proof (cases idx)
  case NaN
  then show ?thesis by (simp add: decrement_at_def assign_def element_def positive_def)
next
  case (Number i)
  with assms have "i < n" "0 < f i" by (simp_all add: slot_of_def)
  then show ?thesis
    using Number
    by (intro nth_equalityI)
      (auto simp: decrement_at_def assign_def element_def decr_def positive_def nth_list_update)
qed

lemma fold_decrement_at:
  assumes "\<forall>idx\<in>set idxs. slot_of n idx"
    and "\<forall>j<n. int (count_list idxs (Number j)) \<le> f j"
  shows "fold decrement_at idxs (map (\<lambda>j. Number (f j)) [0..<n])
    = map (\<lambda>j. Number (f j - int (count_list idxs (Number j)))) [0..<n]"
  using assms
proof (induction idxs arbitrary: f)
  case Nil
  then show ?case by simp
next
  case (Cons idx idxs)
  let ?g = "\<lambda>j. f j - (if idx = Number j then 1 else 0)"
  have pos: "\<forall>j<n. idx = Number j \<longrightarrow> 0 < f j"
  proof (intro allI impI)
    fix j assume "j < n" "idx = Number j"
    with Cons.prems(2) have "int (count_list (idx # idxs) (Number j)) \<le> f j" by blast
    with \<open>idx = Number j\<close> show "0 < f j" by simp
  qed
  have le: "\<forall>j<n. int (count_list idxs (Number j)) \<le> ?g j"
  proof (intro allI impI)
    fix j assume "j < n"
    with Cons.prems(2) have "int (count_list (idx # idxs) (Number j)) \<le> f j" by blast
    then show "int (count_list idxs (Number j)) \<le> ?g j" by (simp split: if_splits)
  qed
  have "fold decrement_at (idx # idxs) (map (\<lambda>j. Number (f j)) [0..<n])
    = fold decrement_at idxs (map (\<lambda>j. Number (?g j)) [0..<n])"
    using Cons.prems(1) pos by (simp add: decrement_at_map)
  also have "\<dots> = map (\<lambda>j. Number (?g j - int (count_list idxs (Number j)))) [0..<n]"
    using Cons.prems(1) le by (intro Cons.IH) simp_all
  also have "\<dots> = map (\<lambda>j. Number (f j - int (count_list (idx # idxs) (Number j)))) [0..<n]"
    by simp
  finally show ?case .
qed

lemma indexOf_ge: "- 1 \<le> indexOf xs x"
  by (induction xs) auto

lemma indexOf_mem: "x \<in> set xs \<Longrightarrow> 0 \<le> indexOf xs x"
  by (induction xs) auto

lemma indexOf_absent: "x \<notin> set xs \<Longrightarrow> indexOf xs x = - 1"
  by (induction xs) auto

lemma splice1_indexOf: "x \<in> set xs \<Longrightarrow> splice1 xs (nat (indexOf xs x)) = remove1 x xs"
proof (induction xs)
  case Nil
  then show ?case by simp
next
  case (Cons y ys)
  show ?case
  proof (cases "y = x")
    case True
    then show ?thesis by (simp add: splice1_def)
  next
    case False
    with Cons.prems have mem: "x \<in> set ys" by simp
    then have ge: "0 \<le> indexOf ys x" by (rule indexOf_mem)
    then have "nat (indexOf ys x + 1) = Suc (nat (indexOf ys x))" by simp
    with False mem Cons.IH ge show ?thesis
      by (simp add: splice1_def)
  qed
qed

subsection \<open>Evaluation at sample inputs\<close>

lemma fnv1a_a_h1: "fnv1a [0x61] 0x811c9dc5 = 1627429043"
  by (simp add: fnv1a_def fnv1a_step_def)

lemma fnv1a_a_h2: "fnv1a [0x61] 0x9e3779b9 = 790108583"
  by (simp add: fnv1a_def fnv1a_step_def)

lemma combinedHash_a_0: "combinedHash 1627429043 790108583 0 = 1627429043"
  by (simp add: combinedHash_def to_uint32_def fl_def)

lemma combinedHash_a_1: "combinedHash 1627429043 790108583 (Suc 0) = 2417537626"
  by (simp add: combinedHash_def to_uint32_def fl_def)

lemma combinedHash_a_2: "combinedHash 1627429043 790108583 (Suc (Suc 0)) = 3207646209"
  by (simp add: combinedHash_def to_uint32_def fl_def)

lemma getHashIndices_a: "getHashIndices [0x61] 20 3 = [Number 3, Number 6, Number 9]"
  by (simp add: getHashIndices_map fnv1a_a_h1 fnv1a_a_h2 upt_rec combinedHash_a_0 combinedHash_a_1
      combinedHash_a_2 js_rem_def)

lemma fnv1a_cz_h1: "fnv1a [0x63, 0x7A] 0x811c9dc5 = 2096431513"
  by (simp add: fnv1a_def fnv1a_step_def)

lemma fnv1a_cz_h2: "fnv1a [0x63, 0x7A] 0x9e3779b9 = 4294259733"
  by (simp add: fnv1a_def fnv1a_step_def)

lemma spec_index_cz: "spec_index [0x63, 0x7A] 20 2097498 = 15"
  by (simp add: spec_index_def fnv1a_cz_h1 [unfolded fnv1a_spec, simplified] fnv1a_cz_h2 [unfolded fnv1a_spec, simplified])

lemma combinedHash_cz: "combinedHash 2096431513 4294259733 2097498 = 4043138556"
  by (simp add: combinedHash_def to_uint32_def fl_def bitlen.simps Let_def)

lemma trim_space: "trim [0x20] = []"
  by (simp add: trim_def is_ws_def)

lemma trim_a: "trim [0x61] = [0x61]"
  by (simp add: trim_def is_ws_def)

lemma fresh_eq:
  "fresh n k = \<lparr>bsize = n, hashCount = k, bitArray = replicate n (Number 0), items = [],
     inputValue = [], lastOperation = None\<rparr>"
  by (auto simp: fresh_def configure_def reset_def initial_def)

subsection \<open>Double hashing\<close>

text \<open>
  Claim C2, as the code has it. For every string, every capacity \<open>m \<ge> 1\<close> and every
  \<open>k\<close>, \<open>getHashIndices\<close> returns exactly \<open>k\<close> indices, each a slot in \<open>[0, m)\<close>.
  Index \<open>i\<close> is the double hashing value \<open>((h1 + i * h2) mod 2 ^ 32) mod m\<close> of the
  specification whenever \<open>h1 + i * h2 < 2 ^ 53\<close>, where the sum is computed exactly; this
  covers every index when \<open>k \<le> 2 ^ 21\<close>. Beyond that bound the sum is rounded to a double
  before it is reduced.
\<close>

theorem hash_indices_double_hashing:
  assumes "1 \<le> m"
  shows "length (getHashIndices input m k) = k
    \<and> (\<forall>i<k. \<exists>j<m. getHashIndices input m k ! i = Number j)
    \<and> (\<forall>i<k. spec_FNV1a input 0x811c9dc5 + i * spec_FNV1a input 0x9e3779b9 < 2 ^ 53 \<longrightarrow>
          getHashIndices input m k ! i = Number (spec_index input m i))
    \<and> (k \<le> 2 ^ 21 \<longrightarrow> getHashIndices input m k = map (\<lambda>i. Number (spec_index input m i)) [0..<k])"
proof -
  let ?h1 = "fnv1a input 0x811c9dc5" and ?h2 = "fnv1a input 0x9e3779b9"
  have h: "?h1 = spec_FNV1a input 0x811c9dc5" "?h2 = spec_FNV1a input 0x9e3779b9"
    by (simp_all add: fnv1a_spec)
  have nth: "getHashIndices input m k ! i = Number (combinedHash ?h1 ?h2 i mod m)" if "i < k" for i
    using that assms by (simp add: getHashIndices_map js_rem_def)
  have exact: "getHashIndices input m k ! i = Number (spec_index input m i)"
    if "i < k" "?h1 + i * ?h2 < 2 ^ 53" for i
    using that by (simp add: nth combinedHash_exact spec_index_def h)
  have small: "getHashIndices input m k ! i = Number (spec_index input m i)"
    if "i < k" "k \<le> 2 ^ 21" for i
  proof -
    have "i < 2 ^ 21" using that by simp
    then have "?h1 + i * ?h2 < 2 ^ 53"
      by (intro small_index_exact fnv1a_lt)
    with that show ?thesis by (simp add: exact)
  qed
  have "\<exists>j<m. getHashIndices input m k ! i = Number j" if "i < k" for i
    using that assms by (simp add: nth)
  moreover have "getHashIndices input m k = map (\<lambda>i. Number (spec_index input m i)) [0..<k]"
    if "k \<le> 2 ^ 21"
    using that by (intro nth_equalityI) (simp_all add: length_getHashIndices small)
  ultimately show ?thesis
    using exact h by (simp add: length_getHashIndices)
qed

theorem hash_indices_double_hashing_witness:
  "(1::nat) \<le> 20 \<and> (3::nat) \<le> 2 ^ 21 \<and> length (getHashIndices [0x61] 20 3) = 3
   \<and> getHashIndices [0x61] 20 3 = map (\<lambda>i. Number (spec_index [0x61] 20 i)) [0..<3]"
  using hash_indices_double_hashing [of 20 "[0x61]" 3] by (simp del: upt_Suc)

text \<open>
  For the string \<open>cz\<close>, capacity 20 and 2097499 hash functions, the last index is 16,
  where the double hashing value of the specification is 15: the sum \<open>h1 + i * h2\<close>
  exceeds \<open>2 ^ 53\<close> and is rounded.
\<close>

theorem hash_indices_rounding_counterexample:
  "getHashIndices [0x63, 0x7A] 20 2097499 ! 2097498 = Number 16
   \<and> spec_index [0x63, 0x7A] 20 2097498 = 15"
  by (simp add: getHashIndices_map js_rem_def fnv1a_cz_h1 fnv1a_cz_h2 combinedHash_cz spec_index_cz)

section \<open>Configuration\<close>

text \<open>
  Claim C6, as the code has it. Nothing validates the configuration: for every capacity and
  hash count, zero included, a configuration yields a filter state with that many zeroed
  counters and no items. Index derivation for capacity 0 does not fail: it returns
  \<open>NaN\<close> for each of the \<open>k\<close> positions; for hash count 0 it returns no index.
\<close>

theorem no_configuration_validation:
  "bsize (fresh n k) = n \<and> hashCount (fresh n k) = k
   \<and> bitArray (fresh n k) = replicate n (Number 0) \<and> items (fresh n k) = []
   \<and> getHashIndices input 0 k = replicate k NaN
   \<and> getHashIndices input n 0 = []"
  by (simp add: fresh_eq getHashIndices_zero length_0_conv [THEN iffD1, OF length_getHashIndices])

text \<open>
  Configuring capacity 0 with 3 hash functions gives a filter with an empty counter array,
  on which the check of an item that was never inserted reports a match.
\<close>

theorem zero_capacity_counterexample:
  "bitArray (fresh 0 3) = [] \<and> getHashIndices [0x61] 0 3 = [NaN, NaN, NaN]
   \<and> lastOperation (exec (Check [0x61]) (fresh 0 3))
     = Some \<lparr>op_kind = OpCheck, word = [0x61], indices = [NaN, NaN, NaN], isMatch = True,
         isFalsePositive = True, missingIndices = Some []\<rparr>"
  by (simp add: fresh_eq getHashIndices_zero handleCheck_def
      trim_a element_def numeral_3_eq_3 Let_def)

section \<open>Check\<close>

text \<open>
  Claim C9. A check changes neither the counter array nor the items (nor the
  configuration); it only writes the input field and the last operation.
\<close>

theorem check_pure:
  "bitArray (exec (Check v) s) = bitArray s \<and> items (exec (Check v) s) = items s
   \<and> bsize (exec (Check v) s) = bsize s \<and> hashCount (exec (Check v) s) = hashCount s"
  by (simp add: handleCheck_def Let_def)

lemma wellformed_element:
  assumes "wellformed s" and "idx \<in> set (getHashIndices w (bsize s) (hashCount s))"
  shows "\<exists>n. element (bitArray s) idx = Number n \<and> 0 \<le> n"
proof -
  from assms obtain j where j: "j < bsize s" "idx = Number j"
    using getHashIndices_Number [of "bsize s" idx w "hashCount s"] by (auto simp: wellformed_def)
  with assms(1) have "nonneg (bitArray s ! j)" "j < length (bitArray s)"
    by (simp_all add: wellformed_def list_all_length)
  with j show ?thesis
    by (cases "bitArray s ! j") (simp_all add: element_def nonneg_def)
qed

lemma wellformed_initial: "wellformed initial"
  by (simp add: wellformed_def initial_def DEFAULT_SIZE_def nonneg_def list_all_iff)

text \<open>
  Claim C4, as the code has it. For every text whose trimmed form \<open>w\<close> is not empty and
  every state, a check records the indices of \<open>w\<close>; the match flag is true iff no counter
  at these indices is 0, which in a state that satisfies the data model means that every such
  counter is positive; the missing indices are the indices, in order, whose counter is 0 (none
  iff matched); and the false positive flag is true iff matched and \<open>w\<close> is not among the
  items.
\<close>

theorem check_result_semantics:
  assumes "trim v \<noteq> []"
  shows "\<exists>r. lastOperation (exec (Check v) s) = Some r
    \<and> op_kind r = OpCheck \<and> word r = trim v
    \<and> indices r = getHashIndices (trim v) (bsize s) (hashCount s)
    \<and> (isMatch r \<longleftrightarrow> (\<forall>idx\<in>set (indices r). element (bitArray s) idx \<noteq> Number 0))
    \<and> (wellformed s \<longrightarrow>
          (isMatch r \<longleftrightarrow> (\<forall>idx\<in>set (indices r). positive (element (bitArray s) idx))))
    \<and> missingIndices r = Some (filter (\<lambda>idx. element (bitArray s) idx = Number 0) (indices r))
    \<and> (isMatch r \<longleftrightarrow> missingIndices r = Some [])
    \<and> (isFalsePositive r \<longleftrightarrow> isMatch r \<and> trim v \<notin> set (items s))"
proof -
  let ?idxs = "getHashIndices (trim v) (bsize s) (hashCount s)"
  have "element (bitArray s) idx \<noteq> Number 0 \<longleftrightarrow> positive (element (bitArray s) idx)"
    if "wellformed s" "idx \<in> set ?idxs" for idx
    using wellformed_element [OF that] by (auto simp: positive_def)
  then have "wellformed s \<longrightarrow>
    ((\<forall>idx\<in>set ?idxs. element (bitArray s) idx \<noteq> Number 0)
      \<longleftrightarrow> (\<forall>idx\<in>set ?idxs. positive (element (bitArray s) idx)))"
    by blast
  with assms show ?thesis
    by (simp add: handleCheck_def Let_def filter_empty_conv)
qed

theorem check_result_semantics_witness:
  "trim [0x61] \<noteq> [] \<and> wellformed initial
   \<and> (\<exists>r. lastOperation (exec (Check [0x61]) initial) = Some r \<and> word r = [0x61]
        \<and> indices r = [Number 3, Number 6, Number 9] \<and> \<not> isMatch r
        \<and> missingIndices r = Some [Number 3, Number 6, Number 9] \<and> \<not> isFalsePositive r)"
proof -
  have nonblank: "trim [0x61] \<noteq> []" by (simp add: trim_a)
  note idxs = getHashIndices_a
  have bits: "bitArray initial = replicate 20 (Number 0)" "bsize initial = 20"
    "hashCount initial = 3"
    by (simp_all add: initial_def DEFAULT_SIZE_def DEFAULT_HASHES_def)
  have el: "element (bitArray initial) (Number j) = Number 0" if "j < 20" for j
    using that by (simp add: element_def bits)
  from check_result_semantics [OF nonblank, of initial]
  obtain r where r: "lastOperation (exec (Check [0x61]) initial) = Some r"
    "word r = trim [0x61]"
    "indices r = getHashIndices (trim [0x61]) (bsize initial) (hashCount initial)"
    "isMatch r \<longleftrightarrow> missingIndices r = Some []"
    "missingIndices r = Some (filter (\<lambda>idx. element (bitArray initial) idx = Number 0) (indices r))"
    "isFalsePositive r \<longleftrightarrow> isMatch r \<and> trim [0x61] \<notin> set (items initial)"
    by blast
  have i: "indices r = [Number 3, Number 6, Number 9]"
    using r(3) by (simp only: trim_a bits idxs)
  have m: "missingIndices r = Some [Number 3, Number 6, Number 9]"
    using r(5) by (simp add: i el)
  have "\<not> isMatch r" using r(4) m by simp
  moreover have "\<not> isFalsePositive r" using r(6) calculation by simp
  moreover have "word r = [0x61]" using r(2) by (simp only: trim_a)
  ultimately show ?thesis
    using nonblank wellformed_initial r(1) i m by blast
qed

text \<open>
  For a blank text (a single space) the check returns at once and records nothing.
\<close>

theorem check_blank_counterexample:
  "lastOperation (exec (Check [0x20]) initial) = None"
  by (simp add: handleCheck_def trim_space initial_def)

section \<open>Delete of an absent item\<close>

text \<open>
  Claim C5, as the code has it. When the trimmed text is not among the items, a delete
  leaves the whole state as it is, counters and items included; it shows the alert unless
  the trimmed text is empty, in which case it returns silently.
\<close>

theorem delete_absent_unchanged:
  assumes "trim v \<notin> set (items s)"
  shows "handleDelete (s\<lparr>inputValue := v\<rparr>)
      = (if trim v = [] then None else Some (alert_text (trim v)), s\<lparr>inputValue := v\<rparr>)
    \<and> bitArray (exec (Delete v) s) = bitArray s \<and> items (exec (Delete v) s) = items s"
  using assms by (simp add: handleDelete_def)

theorem delete_absent_unchanged_witness:
  "trim [0x61] \<notin> set (items initial)
   \<and> handleDelete (initial\<lparr>inputValue := [0x61]\<rparr>)
      = (Some (alert_text [0x61]), initial\<lparr>inputValue := [0x61]\<rparr>)"
proof -
  have absent: "trim [0x61] \<notin> set (items initial)"
    by (simp add: initial_def)
  from delete_absent_unchanged [OF absent] absent show ?thesis
    by (simp add: trim_a)
qed

text \<open>
  A delete of a blank text (a single space), whose item is not among the items, shows no
  alert.
\<close>

theorem delete_blank_silent_counterexample:
  "trim [0x20] \<notin> set (items initial)
   \<and> fst (handleDelete (initial\<lparr>inputValue := [0x20]\<rparr>)) = None"
  by (simp add: handleDelete_def trim_space initial_def)

section \<open>Invariants of the operations\<close>

subsection \<open>Trimming\<close>

lemma dropWhile_rev_keep:
  assumes "xs \<noteq> []" "\<not> P (hd xs)"
  shows "rev (dropWhile P (rev xs)) \<noteq> [] \<and> hd (rev (dropWhile P (rev xs))) = hd xs"
proof -
  from assms obtain y ys where xs: "xs = y # ys" and y: "\<not> P y"
    by (cases xs) auto
  have "dropWhile P (rev ys @ [y]) = dropWhile P (rev ys) @ [y] \<or> dropWhile P (rev ys @ [y]) = [y]"
    using y by (simp add: dropWhile_append)
  then show ?thesis
    using xs y by (auto simp: hd_append)
qed

lemma trim_idem: "trim (trim str) = trim str"
proof (cases "trim str = []")
  case True
  have "trim [] = []" by (simp add: trim_def)
  with True show ?thesis by simp
next
  case False
  let ?u = "dropWhile is_ws str"
  have u: "?u \<noteq> []"
  proof
    assume "?u = []"
    then have "trim str = []" by (simp add: trim_def del: dropWhile_eq_Nil_conv)
    with False show False by simp
  qed
  then have "\<not> is_ws (hd ?u)" by (rule hd_dropWhile)
  with u have "\<not> is_ws (hd (trim str))"
    using dropWhile_rev_keep [of ?u is_ws] by (simp add: trim_def)
  with False have "dropWhile is_ws (trim str) = trim str"
    by (simp add: dropWhile_eq_self_iff)
  then have "trim (trim str) = rev (dropWhile is_ws (rev (trim str)))"
    by (simp add: trim_def [of "trim str"])
  also have "rev (trim str) = dropWhile is_ws (rev ?u)"
    by (simp add: trim_def)
  also have "rev (dropWhile is_ws (dropWhile is_ws (rev ?u))) = trim str"
    by (simp add: trim_def)
  finally show ?thesis .
qed

subsection \<open>Loads\<close>

lemma load_Nil: "load sz k [] j = 0"
  by (simp add: load_def)

lemma load_append:
  "load sz k (ws @ [w]) j = load sz k ws j + int (count_list (getHashIndices w sz k) (Number j))"
  by (simp add: load_def)

lemma load_remove1:
  assumes "w \<in> set ws"
  shows "load sz k (remove1 w ws) j
    = load sz k ws j - int (count_list (getHashIndices w sz k) (Number j))"
  using sum_list_map_remove1 [OF assms, of "\<lambda>w. int (count_list (getHashIndices w sz k) (Number j))"]
  by (simp add: load_def)

lemma load_nonneg: "0 \<le> load sz k ws j"
  by (auto simp: load_def intro!: sum_list_nonneg)

lemma load_ge:
  assumes "w \<in> set ws"
  shows "int (count_list (getHashIndices w sz k) (Number j)) \<le> load sz k ws j"
  using load_remove1 [OF assms, of sz k j] load_nonneg [of sz k "remove1 w ws" j] by simp

subsection \<open>Consistency\<close>

lemma consistent_fresh: "consistent (fresh n k)"
  by (simp add: consistent_def fresh_eq load_Nil map_replicate_const)

lemma consistent_inputValue: "consistent (s\<lparr>inputValue := v\<rparr>) = consistent s"
  by (simp add: consistent_def)

lemma handleInsert_consistent:
  assumes "consistent s"
  shows "consistent (handleInsert s)"
proof (cases "trim (inputValue s) = []")
  case True
  with assms show ?thesis by (simp add: handleInsert_def)
next
  case False
  let ?w = "trim (inputValue s)"
  let ?idxs = "getHashIndices ?w (bsize s) (hashCount s)"
  have slots: "\<forall>idx\<in>set ?idxs. slot_of (bsize s) idx"
    by (simp add: getHashIndices_slot)
  have "fold increment_at ?idxs (bitArray s)
    = map (\<lambda>j. Number (load (bsize s) (hashCount s) (items s @ [?w]) j)) [0..<bsize s]"
    using assms fold_increment_at [OF slots] by (simp add: consistent_def load_append)
  with False show ?thesis
    by (simp add: handleInsert_def consistent_def Let_def)
qed

lemma handleCheck_consistent: "consistent s \<Longrightarrow> consistent (handleCheck s)"
  by (simp add: handleCheck_def consistent_def Let_def)

lemma handleDelete_items:
  "items (snd (handleDelete s))
    = (if trim (inputValue s) \<noteq> [] \<and> trim (inputValue s) \<in> set (items s)
       then remove1 (trim (inputValue s)) (items s) else items s)"
proof (cases "trim (inputValue s) \<noteq> [] \<and> trim (inputValue s) \<in> set (items s)")
  case True
  then have "- 1 < indexOf (items s) (trim (inputValue s))"
    using indexOf_mem [of "trim (inputValue s)" "items s"] by simp
  with True show ?thesis
    by (simp add: handleDelete_def Let_def splice1_indexOf)
next
  case False
  then show ?thesis by (auto simp: handleDelete_def Let_def)
qed

lemma handleDelete_consistent:
  assumes "consistent s"
  shows "consistent (snd (handleDelete s))"
proof (cases "trim (inputValue s) \<noteq> [] \<and> trim (inputValue s) \<in> set (items s)")
  case False
  with assms show ?thesis by (auto simp: handleDelete_def Let_def)
next
  case True
  let ?w = "trim (inputValue s)"
  let ?idxs = "getHashIndices ?w (bsize s) (hashCount s)"
  have slots: "\<forall>idx\<in>set ?idxs. slot_of (bsize s) idx"
    by (simp add: getHashIndices_slot)
  have le: "\<forall>j<bsize s. int (count_list ?idxs (Number j)) \<le> load (bsize s) (hashCount s) (items s) j"
    using True by (simp add: load_ge)
  have bits: "fold decrement_at ?idxs (bitArray s)
    = map (\<lambda>j. Number (load (bsize s) (hashCount s) (remove1 ?w (items s)) j)) [0..<bsize s]"
    using assms True fold_decrement_at [OF slots le] by (simp add: consistent_def load_remove1)
  have "bitArray (snd (handleDelete s)) = fold decrement_at ?idxs (bitArray s)"
    "bsize (snd (handleDelete s)) = bsize s" "hashCount (snd (handleDelete s)) = hashCount s"
    using True by (simp_all add: handleDelete_def Let_def)
  with bits True show ?thesis
    by (simp add: consistent_def handleDelete_items)
qed

lemma exec_consistent: "consistent s \<Longrightarrow> consistent (exec x s)"
  by (cases x)
    (simp_all add: handleInsert_consistent handleCheck_consistent handleDelete_consistent
      consistent_inputValue)

lemma run_consistent: "consistent s \<Longrightarrow> consistent (run ops s)"
  by (induction ops arbitrary: s) (simp_all add: exec_consistent)

lemma exec_config: "bsize (exec x s) = bsize s \<and> hashCount (exec x s) = hashCount s"
  by (cases x) (simp_all add: handleInsert_def handleCheck_def handleDelete_def Let_def)

lemma run_config: "bsize (run ops s) = bsize s \<and> hashCount (run ops s) = hashCount s"
  by (induction ops arbitrary: s) (simp_all add: exec_config)

subsection \<open>Reachable states\<close>

lemma reachable_consistent: "consistent (run ops (fresh m k))"
  by (simp add: run_consistent consistent_fresh)

lemma consistent_counter:
  assumes "consistent s" and "c \<in> set (bitArray s)"
  shows "\<exists>n. c = Number n \<and> 0 \<le> n"
proof -
  from assms obtain j where "c = Number (load (bsize s) (hashCount s) (items s) j)"
    by (auto simp: consistent_def)
  then show ?thesis by (simp add: load_nonneg)
qed

lemma reachable_wellformed:
  assumes "1 \<le> m"
  shows "wellformed (run ops (fresh m k))"
proof -
  let ?s = "run ops (fresh m k)"
  have cfg: "bsize ?s = m"
    by (simp add: run_config fresh_eq)
  have c: "consistent ?s" by (rule reachable_consistent)
  then have "length (bitArray ?s) = bsize ?s"
    by (simp add: consistent_def)
  moreover have "nonneg x" if "x \<in> set (bitArray ?s)" for x
    using consistent_counter [OF c that] by (auto simp: nonneg_def)
  then have "list_all nonneg (bitArray ?s)"
    by (simp add: list_all_iff)
  ultimately show ?thesis
    using assms cfg by (simp add: wellformed_def)
qed

lemma exec_items_words:
  assumes "\<forall>w\<in>set (items s). w \<noteq> [] \<and> trim w = w"
  shows "\<forall>w\<in>set (items (exec x s)). w \<noteq> [] \<and> trim w = w"
proof (cases x)
  case (Insert v)
  with assms show ?thesis by (auto simp: handleInsert_def Let_def trim_idem)
next
  case (Check v)
  with assms show ?thesis by (simp add: handleCheck_def Let_def)
next
  case (Delete v)
  have "set (items (snd (handleDelete (s\<lparr>inputValue := v\<rparr>)))) \<subseteq> set (items s)"
    using set_remove1_subset [of "trim v" "items s"] by (simp add: handleDelete_items)
  with assms Delete show ?thesis by auto
qed

lemma run_items_words:
  assumes "\<forall>w\<in>set (items s). w \<noteq> [] \<and> trim w = w"
  shows "\<forall>w\<in>set (items (run ops s)). w \<noteq> [] \<and> trim w = w"
  using assms
proof (induction ops arbitrary: s)
  case Nil
  then show ?case by simp
next
  case (Cons a ops)
  from Cons.prems have "\<forall>w\<in>set (items (exec a s)). w \<noteq> [] \<and> trim w = w"
    by (rule exec_items_words)
  then have "\<forall>w\<in>set (items (run ops (exec a s))). w \<noteq> [] \<and> trim w = w"
    by (rule Cons.IH)
  then show ?case
    by (simp only: run.simps)
qed

lemma reachable_items_words:
  "w \<in> set (items (run ops (fresh m k))) \<Longrightarrow> w \<noteq> [] \<and> trim w = w"
  using run_items_words [of "fresh m k" ops] by (simp add: fresh_eq)

lemma getHashIndices_one: "getHashIndices w (Suc 0) (Suc 0) = [Number 0]"
  by (simp add: getHashIndices_map js_rem_def)

lemma run_insert_a: "bitArray (run [Insert [0x61]] (fresh 1 1)) = [Number 1]"
  by (simp add: fresh_eq handleInsert_def trim_a
      getHashIndices_one increment_at_def assign_def element_def incr_def Let_def)

lemma items_insert_a: "items (run [Insert [0x61]] (fresh 1 1)) = [[0x61]]"
  by (simp add: fresh_eq handleInsert_def trim_a Let_def)

section \<open>Counters are never negative\<close>

text \<open>
  Claim C3. Starting from a fresh filter, of any capacity and hash count, after every
  sequence of insert, check and delete operations every counter of the array is a number
  that is at least 0. The sequences include deletes of absent items and more deletes than
  inserts.
\<close>

theorem counters_nonnegative:
  "c \<in> set (bitArray (run ops (fresh m k))) \<Longrightarrow> \<exists>n. c = Number n \<and> 0 \<le> n"
  using reachable_consistent by (rule consistent_counter)

theorem counters_nonnegative_witness:
  "Number 1 \<in> set (bitArray (run [Insert [0x61]] (fresh 1 1)))
   \<and> (\<exists>n. Number 1 = Number n \<and> (0::int) \<le> n)"
proof -
  have mem: "Number 1 \<in> set (bitArray (run [Insert [0x61]] (fresh 1 1)))"
    by (simp only: run_insert_a) simp
  from counters_nonnegative [OF mem] mem show ?thesis by blast
qed

section \<open>The sum of the counters\<close>

lemma foldr_plus_js: "foldr plus_js (map Number xs) (Number a) = Number (sum_list xs + a)"
  by (induction xs) simp_all

lemma counter_sum_map: "counter_sum (map (\<lambda>j. Number (f j)) xs) = Number (sum_list (map f xs))"
  using foldr_plus_js [of "map f xs" 0] by (simp add: counter_sum_def comp_def)

lemma sum_count_list:
  assumes "\<forall>idx\<in>set idxs. \<exists>j. j < n \<and> idx = Number j"
  shows "(\<Sum>j\<leftarrow>[0..<n]. int (count_list idxs (Number j))) = int (length idxs)"
  using assms
proof (induction idxs)
  case Nil
  then show ?case by simp
next
  case (Cons idx idxs)
  then obtain i where i: "i < n" "idx = Number i" by auto
  have "(\<Sum>j\<leftarrow>[0..<n]. int (count_list (idx # idxs) (Number j)))
    = (\<Sum>j\<leftarrow>[0..<n]. int (count_list idxs (Number j)) + (if i = j then 1 else 0))"
    using i by (intro arg_cong [where f = sum_list] map_cong) auto
  also have "\<dots> = (\<Sum>j\<leftarrow>[0..<n]. int (count_list idxs (Number j)))
      + (\<Sum>j\<leftarrow>[0..<n]. if i = j then 1 else 0)"
    by (simp add: sum_list_addf)
  also have "(\<Sum>j\<leftarrow>[0..<n]. if i = j then 1 else 0) = (1::int)"
    using i by (simp add: interv_sum_list_conv_sum_set_nat)
  finally show ?case using Cons by simp
qed

lemma sum_load:
  assumes "1 \<le> sz"
  shows "(\<Sum>j\<leftarrow>[0..<sz]. load sz k ws j) = int k * int (length ws)"
proof (induction ws)
  case Nil
  then show ?case by (simp add: load_def)
next
  case (Cons w ws)
  have "(\<Sum>j\<leftarrow>[0..<sz]. load sz k (w # ws) j)
    = (\<Sum>j\<leftarrow>[0..<sz]. int (count_list (getHashIndices w sz k) (Number j)))
      + (\<Sum>j\<leftarrow>[0..<sz]. load sz k ws j)"
    by (simp add: load_def sum_list_addf)
  also have "(\<Sum>j\<leftarrow>[0..<sz]. int (count_list (getHashIndices w sz k) (Number j))) = int k"
    using sum_count_list [of "getHashIndices w sz k" sz] getHashIndices_Number [OF assms]
    by (simp add: length_getHashIndices)
  finally show ?case using Cons by (simp add: algebra_simps)
qed

text \<open>
  Claim C10. Starting from a fresh filter with at least one slot and \<open>k\<close> hash
  functions, after every sequence of operations the sum of all counters is \<open>k\<close> times
  the number of items.
\<close>

theorem counter_sum_invariant:
  assumes "1 \<le> m"
  shows "counter_sum (bitArray (run ops (fresh m k)))
    = Number (int k * int (length (items (run ops (fresh m k)))))"
proof -
  let ?s = "run ops (fresh m k)"
  have cfg: "bsize ?s = m" "hashCount ?s = k"
    by (simp_all add: run_config fresh_eq)
  have "bitArray ?s = map (\<lambda>j. Number (load m k (items ?s) j)) [0..<m]"
    using reachable_consistent [of ops m k] by (simp add: consistent_def cfg)
  then have "counter_sum (bitArray ?s) = Number (\<Sum>j\<leftarrow>[0..<m]. load m k (items ?s) j)"
    by (simp add: counter_sum_map)
  with assms show ?thesis by (simp add: sum_load)
qed

theorem counter_sum_invariant_witness:
  "(1::nat) \<le> 1 \<and> counter_sum (bitArray (run [Insert [0x61]] (fresh 1 1))) = Number 1
   \<and> length (items (run [Insert [0x61]] (fresh 1 1))) = 1"
  using counter_sum_invariant [of 1 "[Insert [0x61]]" 1] by (simp only: items_insert_a) simp

section \<open>No false negatives\<close>

lemma count_list_remove1_int:
  "w \<in> set xs \<Longrightarrow>
    int (count_list (remove1 w xs) x) = int (count_list xs x) - (if x = w then 1 else 0)"
  by (induction xs) auto

lemma items_handleInsert:
  "items (handleInsert s)
    = (if trim (inputValue s) = [] then items s else items s @ [trim (inputValue s)])"
  by (simp add: handleInsert_def Let_def)

lemma net_count:
  assumes "trim x \<noteq> []"
  shows "int (count_list (items (run ops s)) (trim x))
    = int (count_list (items s) (trim x)) + net x ops s"
proof (induction ops arbitrary: s)
  case Nil
  then show ?case by simp
next
  case (Cons a ops)
  have step: "int (count_list (items (exec a s)) (trim x)) + net x ops (exec a s)
    = int (count_list (items s) (trim x)) + net x (a # ops) s"
  proof (cases a)
    case (Insert v)
    then show ?thesis using assms by (auto simp: items_handleInsert)
  next
    case (Check v)
    then show ?thesis by (simp add: handleCheck_def Let_def)
  next
    case (Delete v)
    show ?thesis
    proof (cases "trim v \<noteq> [] \<and> trim v \<in> set (items s)")
      case True
      have eq: "items (exec a s) = remove1 (trim v) (items s)"
        using True Delete by (simp add: handleDelete_items)
      have "int (count_list (items (exec a s)) (trim x))
        = int (count_list (remove1 (trim v) (items s)) (trim x))"
        by (simp only: eq)
      also have "\<dots> = int (count_list (items s) (trim x)) - (if trim x = trim v then 1 else 0)"
        using True by (intro count_list_remove1_int) simp
      finally have "int (count_list (items (exec a s)) (trim x))
        = int (count_list (items s) (trim x)) - (if trim x = trim v then 1 else 0)" .
      moreover have "net x (a # ops) s
        = (if trim x = trim v then - 1 else 0) + net x ops (exec a s)"
        using True Delete by auto
      ultimately show ?thesis by simp
    next
      case False
      have "items (exec a s) = items s"
        using False Delete by (auto simp: handleDelete_items)
      moreover have "net x (a # ops) s = net x ops (exec a s)"
        using False Delete by auto
      ultimately show ?thesis by simp
    qed
  qed
  show ?case using Cons.IH [of "exec a s"] step by simp
qed

lemma net_positive_member:
  assumes "trim x \<noteq> []" and "0 < net x ops (fresh m k)"
  shows "trim x \<in> set (items (run ops (fresh m k)))"
proof -
  have "items (fresh m k) = []" by (simp add: fresh_eq)
  with assms net_count [of x ops "fresh m k"]
  have "count_list (items (run ops (fresh m k))) (trim x) \<noteq> 0"
    by simp
  then show ?thesis by (simp add: count_list_0_iff)
qed

lemma consistent_member_element:
  assumes "consistent s" and "w \<in> set (items s)"
    and "idx \<in> set (getHashIndices w (bsize s) (hashCount s))"
  shows "element (bitArray s) idx \<noteq> Number 0"
proof (cases idx)
  case NaN
  then show ?thesis by (simp add: element_def)
next
  case (Number j)
  with assms(3) have "j < bsize s"
    using getHashIndices_slot [of idx w "bsize s" "hashCount s"] by (simp add: slot_of_def)
  moreover have "count_list (getHashIndices w (bsize s) (hashCount s)) (Number j) \<noteq> 0"
    using assms(3) Number by (simp add: count_list_0_iff)
  then have "0 < load (bsize s) (hashCount s) (items s) j"
    using load_ge [OF assms(2), of "bsize s" "hashCount s" j] by simp
  ultimately show ?thesis
    using assms(1) Number by (simp add: consistent_def element_def)
qed

lemma consistent_member_check:
  assumes "consistent s" and "trim v \<in> set (items s)" and "trim v \<noteq> []"
  shows "lastOperation (exec (Check v) s)
    = Some \<lparr>op_kind = OpCheck, word = trim v,
        indices = getHashIndices (trim v) (bsize s) (hashCount s),
        isMatch = True, isFalsePositive = False, missingIndices = Some []\<rparr>"
proof -
  have "filter (\<lambda>idx. element (bitArray s) idx = Number 0)
      (getHashIndices (trim v) (bsize s) (hashCount s)) = []"
    using consistent_member_element [OF assms(1,2)] by (simp add: filter_empty_conv)
  with assms show ?thesis
    by (simp add: handleCheck_def Let_def)
qed

text \<open>
  Claim C1, as the code has it. For every sequence of insert, check and delete operations on
  a fresh filter, of any capacity and hash count, and for every item \<open>x\<close> that is not
  blank: if there have been more insert operations for \<open>x\<close> than successful delete
  operations for \<open>x\<close>, where an operation is for \<open>x\<close> when its trimmed text is the
  trimmed \<open>x\<close>, then a check of \<open>x\<close> records a match for the trimmed \<open>x\<close>, with no
  missing index and without the false positive flag.
\<close>

theorem no_false_negatives:
  assumes "trim x \<noteq> []" and "0 < net x ops (fresh m k)"
  shows "lastOperation (exec (Check x) (run ops (fresh m k)))
    = Some \<lparr>op_kind = OpCheck, word = trim x, indices = getHashIndices (trim x) m k,
        isMatch = True, isFalsePositive = False, missingIndices = Some []\<rparr>"
proof -
  let ?s = "run ops (fresh m k)"
  have cfg: "bsize ?s = m" "hashCount ?s = k"
    by (simp_all add: run_config fresh_eq)
  have mem: "trim x \<in> set (items ?s)"
    using assms by (rule net_positive_member)
  from consistent_member_check [OF reachable_consistent mem assms(1)] cfg show ?thesis
    by simp
qed

lemma trim_space_a: "trim [0x20, 0x61] = [0x61]"
  by (simp add: trim_def is_ws_def)

theorem no_false_negatives_witness:
  "trim [0x20, 0x61] \<noteq> []
   \<and> 0 < net [0x20, 0x61] [Insert [0x61], Insert [0x20, 0x61], Delete [0x61]] (fresh 20 3)
   \<and> lastOperation (exec (Check [0x20, 0x61])
        (run [Insert [0x61], Insert [0x20, 0x61], Delete [0x61]] (fresh 20 3)))
     = Some \<lparr>op_kind = OpCheck, word = [0x61], indices = [Number 3, Number 6, Number 9],
         isMatch = True, isFalsePositive = False, missingIndices = Some []\<rparr>"
proof -
  have nonblank: "trim [0x20, 0x61] \<noteq> []"
    by (simp add: trim_space_a)
  have pos: "0 < net [0x20, 0x61] [Insert [0x61], Insert [0x20, 0x61], Delete [0x61]] (fresh 20 3)"
    by (simp add: trim_space_a trim_a items_handleInsert handleDelete_items fresh_eq)
  from no_false_negatives [OF nonblank pos] nonblank pos show ?thesis
    by (simp only: trim_space_a getHashIndices_a) simp
qed

text \<open>
  After an insert of a blank text (a single space) the net count of that item is 1, but
  nothing has been inserted and a check of it returns at once and records nothing.
\<close>

theorem blank_insert_counterexample:
  "0 < net [0x20] [Insert [0x20]] (fresh 20 3)
   \<and> items (run [Insert [0x20]] (fresh 20 3)) = []
   \<and> lastOperation (exec (Check [0x20]) (run [Insert [0x20]] (fresh 20 3))) = None"
  by (simp add: trim_space handleInsert_def handleCheck_def fresh_eq)

section \<open>Insert followed by delete\<close>

lemma consistent_bits_nth:
  assumes "consistent s" and "j < bsize s"
  shows "bitArray s ! j = Number (load (bsize s) (hashCount s) (items s) j)"
proof -
  from assms(1) have "bitArray s ! j
    = map (\<lambda>j. Number (load (bsize s) (hashCount s) (items s) j)) [0..<bsize s] ! j"
    by (simp only: consistent_def)
  with assms(2) show ?thesis by simp
qed

text \<open>
  Claim C8, as the code has it. In every state reached from a fresh filter and for every
  item \<open>x\<close>, an insert of \<open>x\<close> followed at once by a delete of \<open>x\<close> shows no alert, leaves
  the counter array exactly as it was before the insert, and leaves the same multiset of
  items. When \<open>x\<close> is not blank, the insert adds to the counter of every slot the number of
  occurrences of the slot among the indices of the trimmed \<open>x\<close> and appends the trimmed
  \<open>x\<close> to the items; the delete takes the same numbers off again, so that no decrement is
  held back at 0, and records a delete operation.
\<close>

theorem insert_delete_round_trip:
  "fst (handleDelete ((exec (Insert x) (run ops (fresh m k)))\<lparr>inputValue := x\<rparr>)) = None
   \<and> bitArray (exec (Delete x) (exec (Insert x) (run ops (fresh m k))))
     = bitArray (run ops (fresh m k))
   \<and> mset (items (exec (Delete x) (exec (Insert x) (run ops (fresh m k)))))
     = mset (items (run ops (fresh m k)))
   \<and> (trim x \<noteq> [] \<longrightarrow>
        bitArray (exec (Insert x) (run ops (fresh m k)))
          = map (\<lambda>j. plus_js (bitArray (run ops (fresh m k)) ! j)
                (Number (int (count_list (getHashIndices (trim x) m k) (Number j))))) [0..<m]
      \<and> items (exec (Insert x) (run ops (fresh m k))) = items (run ops (fresh m k)) @ [trim x]
      \<and> bitArray (exec (Delete x) (exec (Insert x) (run ops (fresh m k))))
          = map (\<lambda>j. plus_js (bitArray (exec (Insert x) (run ops (fresh m k))) ! j)
                (Number (- int (count_list (getHashIndices (trim x) m k) (Number j))))) [0..<m]
      \<and> lastOperation (exec (Delete x) (exec (Insert x) (run ops (fresh m k))))
          = Some \<lparr>op_kind = OpDelete, word = trim x, indices = getHashIndices (trim x) m k,
              isMatch = True, isFalsePositive = False, missingIndices = None\<rparr>)"
proof (cases "trim x = []")
  case True
  then show ?thesis
    by (simp add: handleInsert_def handleDelete_def)
next
  case False
  let ?s = "run ops (fresh m k)"
  let ?s1 = "exec (Insert x) ?s"
  let ?s2 = "exec (Delete x) ?s1"
  let ?c = "\<lambda>j. int (count_list (getHashIndices (trim x) m k) (Number j))"
  have cfg0: "bsize ?s = m" "hashCount ?s = k"
    by (simp_all add: run_config fresh_eq)
  have cfg: "bsize ?s1 = m" "hashCount ?s1 = k" "bsize ?s2 = m" "hashCount ?s2 = k"
    by (simp_all only: exec_config cfg0)
  have items1: "items ?s1 = items ?s @ [trim x]"
    using False by (simp add: items_handleInsert)
  then have mem: "trim x \<in> set (items ?s1)" by simp
  have items2: "items ?s2 = remove1 (trim x) (items ?s @ [trim x])"
    using False mem items1 by (simp add: handleDelete_items)
  have load1: "load m k (items ?s1) j = load m k (items ?s) j + ?c j" for j
    unfolding items1 by (simp add: load_append)
  have load2: "load m k (items ?s2) j = load m k (items ?s) j" for j
    unfolding items2 by (simp add: load_remove1 load_append)
  have c0: "consistent ?s" by (rule reachable_consistent)
  have c1: "consistent ?s1"
    by (intro exec_consistent reachable_consistent)
  have c2: "consistent ?s2"
    by (intro exec_consistent reachable_consistent)
  have b0: "bitArray ?s = map (\<lambda>j. Number (load m k (items ?s) j)) [0..<m]"
    using c0 by (simp only: consistent_def cfg0)
  have b1: "bitArray ?s1 = map (\<lambda>j. Number (load m k (items ?s) j + ?c j)) [0..<m]"
    using c1 by (simp only: consistent_def cfg load1)
  have b2: "bitArray ?s2 = map (\<lambda>j. Number (load m k (items ?s) j)) [0..<m]"
    using c2 by (simp only: consistent_def cfg load2)
  have restore: "bitArray ?s2 = bitArray ?s"
    by (simp only: b0 b2)
  have up: "bitArray ?s1 = map (\<lambda>j. plus_js (bitArray ?s ! j) (Number (?c j))) [0..<m]"
    unfolding b1 b0 by (rule map_cong) simp_all
  have down: "bitArray ?s2 = map (\<lambda>j. plus_js (bitArray ?s1 ! j) (Number (- ?c j))) [0..<m]"
    unfolding b2 b1 by (rule map_cong) simp_all
  have del: "fst (handleDelete (?s1\<lparr>inputValue := x\<rparr>)) = None"
    using False mem by (simp add: handleDelete_def Let_def)
  have rec: "lastOperation ?s2
    = Some \<lparr>op_kind = OpDelete, word = trim x, indices = getHashIndices (trim x) m k,
        isMatch = True, isFalsePositive = False, missingIndices = None\<rparr>"
    using False mem cfg by (simp add: handleDelete_def Let_def)
  have "mset (items ?s2) = mset (items ?s)"
    unfolding items2 by simp
  with del show ?thesis
    using restore up down rec items1 by blast
qed

theorem insert_delete_round_trip_witness:
  "trim [0x61] \<noteq> []
   \<and> items (exec (Insert [0x61]) (run [] (fresh 20 3))) = items (run [] (fresh 20 3)) @ [[0x61]]
   \<and> bitArray (exec (Delete [0x61]) (exec (Insert [0x61]) (run [] (fresh 20 3))))
     = bitArray (run [] (fresh 20 3))
   \<and> lastOperation (exec (Delete [0x61]) (exec (Insert [0x61]) (run [] (fresh 20 3))))
     = Some \<lparr>op_kind = OpDelete, word = [0x61], indices = [Number 3, Number 6, Number 9],
         isMatch = True, isFalsePositive = False, missingIndices = None\<rparr>"
proof -
  have nonblank: "trim [0x61] \<noteq> []" by (simp add: trim_a)
  from insert_delete_round_trip [of "[0x61]" "[]" 20 3] nonblank show ?thesis
    by (simp only: trim_a getHashIndices_a) blast
qed

text \<open>
  An insert of a blank text (a single space) inserts nothing, and the delete that follows
  records no operation: neither of the two takes place.
\<close>

theorem blank_round_trip_counterexample:
  "items (exec (Insert [0x20]) (fresh 20 3)) = []
   \<and> bitArray (exec (Insert [0x20]) (fresh 20 3)) = bitArray (fresh 20 3)
   \<and> lastOperation (exec (Delete [0x20]) (exec (Insert [0x20]) (fresh 20 3))) = None"
  by (simp add: trim_space handleInsert_def handleDelete_def fresh_eq)

section \<open>The false positive rate\<close>





end
